theory Spec2Isabelle
  imports Main "HOL-Library.Word"
begin

unbundle bit_operations_syntax

section \<open>Machine types\<close>

text \<open>
  The sources are built for a 64-bit kernel (the sampler is x86-64 only), so
  \<^verbatim>\<open>unsigned long\<close>, \<^verbatim>\<open>size_t\<close> and \<^verbatim>\<open>u64\<close> are 64-bit words whose arithmetic
  wraps, \<^verbatim>\<open>u32\<close>, \<^verbatim>\<open>u16\<close> and \<^verbatim>\<open>u8\<close> are words of their width.  Node ids and
  return codes are C \<^verbatim>\<open>int\<close>s on which no arithmetic is done; they are HOL integers.
\<close>

type_synonym u64 = "64 word"
type_synonym u32 = "32 word"
type_synonym u16 = "16 word"
type_synonym u8 = "8 word"

section \<open>mm/kpromoted.c: the hotness table and the promotion sweep\<close>

subsection \<open>Data\<close>

text \<open>
  \<^verbatim>\<open>struct page_hotness_info\<close> is declared in \<^verbatim>\<open>linux/kpromoted.h\<close>, which is not part
  of the sources at hand; the fields are the ones \<^verbatim>\<open>kpromoted.c\<close> reads and writes.
  The times are \<^verbatim>\<open>unsigned long\<close> jiffies.  The list linkage \<^verbatim>\<open>hnode\<close> is the position of
  the record in its bucket's list.
\<close>

record page_hotness_info =
  pfn :: u64
  last_update :: u64
  frequency :: int
  recency :: u64
  hot_node :: int

datatype vm_event =
    KPROMOTED_RECORDED_ACCESSES
  | KPROMOTED_RECORD_HWHINTS
  | KPROMOTED_RECORD_PGTSCANS
  | KPROMOTED_RECORD_TOPTIER
  | KPROMOTED_RECORD_ADDED
  | KPROMOTED_RECORD_EXISTS
  | KPROMOTED_MIG_NON_LRU
  | KPROMOTED_MIG_RIGHT_NODE
  | KPROMOTED_MIG_COLD_OLD
  | KPROMOTED_MIG_COLD_NOT_ACCESSED
  | KPROMOTED_MIG_CANDIDATE
  | KPROMOTED_MIG_PROMOTED
  | KPROMOTED_MIG_DROPPED
  | HWHINT_BUFFER_FULL
  | HWHINT_USEFUL_SAMPLES

text \<open>The \<^verbatim>\<open>src\<close> argument of \<^verbatim>\<open>kpromoted_record_access\<close>: the two named sources and
  any other integer.\<close>

datatype access_src = KPROMOTED_HW_HINTS | KPROMOTED_PGTABLE_SCAN | Other_src int

text \<open>The calls made to the page migration code, in order.\<close>

datatype mig_call = Migrate_prepare u64 int | Migrate_folio u64 int

text \<open>
  The constants of \<^verbatim>\<open>linux/kpromoted.h\<close> and the hash of \<^verbatim>\<open>linux/hashtable.h\<close>, taken
  as parameters: \<open>freq_window\<close> is \<^verbatim>\<open>msecs_to_jiffies(KPROMOTED_FREQ_WINDOW)\<close>,
  \<open>freq_threshold\<close> is \<^verbatim>\<open>KPRMOTED_FREQ_THRESHOLD\<close>, \<open>hash_min\<close> is
  \<^verbatim>\<open>hash_min(pfn, KPROMOTED_HASH_ORDER)\<close> and \<open>hash_size\<close> is
  \<^verbatim>\<open>HASH_SIZE(page_hotness_hash)\<close>.
\<close>

record kp_conf =
  freq_window :: u64
  freq_threshold :: int
  hash_min :: "u64 \<Rightarrow> nat"
  hash_size :: nat

text \<open>
  What the rest of the kernel answers during one call: the memory model's view of a
  page frame, the clock, the allocator and the migration code.  A page pointer is
  modelled by the frame number it was obtained from; the functions that return a
  pointer are modelled by whether the pointer is non-NULL.
\<close>

record mm_env =
  pfn_to_nid :: "u64 \<Rightarrow> int"
  node_is_toptier :: "int \<Rightarrow> bool"
  pfn_to_online_page :: "u64 \<Rightarrow> bool"
  is_zone_device_page :: "u64 \<Rightarrow> bool"
  folio_test_lru :: "u64 \<Rightarrow> bool"
  folio_nid :: "u64 \<Rightarrow> int"
  pfn_to_page :: "u64 \<Rightarrow> bool"
  migrate_misplaced_folio_prepare :: "u64 \<Rightarrow> int \<Rightarrow> int"
  migrate_misplaced_folio :: "u64 \<Rightarrow> int \<Rightarrow> int"
  jiffies :: u64
  kzalloc_ok :: bool

text \<open>
  The global state: the hash table (bucket number to the bucket's list, head first),
  the set of bucket mutexes that are held, the event counters (as the sequence of
  \<^verbatim>\<open>count_vm_event\<close> calls) and the calls made to the migration code.
\<close>

record kp_state =
  page_hotness_hash :: "nat \<Rightarrow> page_hotness_info list"
  page_hotness_lock :: "nat set"
  vm_events :: "vm_event list"
  mig_calls :: "mig_call list"

text \<open>
  A run that does not return: dereferencing a pointer that is not a valid object
  (an \<^verbatim>\<open>ERR_PTR\<close> value lies in the last, never mapped page of the address space),
  or taking a mutex the caller already holds.  The state at that moment is kept.
\<close>

datatype fault = Bad_pointer_deref | Self_deadlock

type_synonym 'a kp_result = "(fault \<times> kp_state) + ('a \<times> kp_state)"

datatype phi_ptr = NULL | ERR_PTR int | Entry nat

definition ENOMEM :: int where
  "ENOMEM = 12"

definition NUMA_NO_NODE :: int where
  "NUMA_NO_NODE = - 1"

definition count_vm_event :: "vm_event \<Rightarrow> kp_state \<Rightarrow> kp_state" where
  "count_vm_event e s = s\<lparr>vm_events := vm_events s @ [e]\<rparr>"

definition kp_init :: kp_state where
  "kp_init = \<lparr>page_hotness_hash = (\<lambda>_. []), page_hotness_lock = {},
              vm_events = [], mig_calls = []\<rparr>"

subsection \<open>kpromote_page\<close>

definition kpromote_page :: "mm_env \<Rightarrow> page_hotness_info \<Rightarrow> kp_state \<Rightarrow> int \<times> kp_state" where
  "kpromote_page env phi s =
     (if \<not> pfn_to_page env (pfn phi) then (1, s)
      else
        let s1 = s\<lparr>mig_calls := mig_calls s @ [Migrate_prepare (pfn phi) (hot_node phi)]\<rparr>;
            ret = migrate_misplaced_folio_prepare env (pfn phi) (hot_node phi)
        in if ret \<noteq> 0 then (1, s1)
           else (migrate_misplaced_folio env (pfn phi) (hot_node phi),
                 s1\<lparr>mig_calls := mig_calls s1 @ [Migrate_folio (pfn phi) (hot_node phi)]\<rparr>))"

subsection \<open>page_should_be_promoted\<close>

definition page_should_be_promoted ::
  "kp_conf \<Rightarrow> mm_env \<Rightarrow> page_hotness_info \<Rightarrow> kp_state \<Rightarrow> bool \<times> kp_state" where
  "page_should_be_promoted conf env phi s =
     (let now = jiffies env in
      if \<not> pfn_to_online_page env (pfn phi) \<or> is_zone_device_page env (pfn phi)
      then (False, s)
      else if \<not> folio_test_lru env (pfn phi)
      then (False, count_vm_event KPROMOTED_MIG_NON_LRU s)
      else if folio_nid env (pfn phi) = hot_node phi
      then (False, count_vm_event KPROMOTED_MIG_RIGHT_NODE s)
      else if now - last_update phi > 2 * freq_window conf
      then (False, count_vm_event KPROMOTED_MIG_COLD_OLD s)
      else if frequency phi < freq_threshold conf
      then (False, count_vm_event KPROMOTED_MIG_COLD_NOT_ACCESSED s)
      else (True, s))"

subsection \<open>kpromoted_migrate\<close>

text \<open>
  The body of \<^verbatim>\<open>hlist_for_each_entry_safe\<close> over one bucket: the records that stay in
  the bucket, in order, and the state after the walk.
\<close>

fun migrate_bucket ::
  "kp_conf \<Rightarrow> mm_env \<Rightarrow> int \<Rightarrow> page_hotness_info list \<Rightarrow> kp_state
     \<Rightarrow> page_hotness_info list \<times> kp_state" where
  "migrate_bucket conf env nid [] s = ([], s)"
| "migrate_bucket conf env nid (phi # rest) s =
     (if hot_node phi \<noteq> nid
      then (let (kept, s') = migrate_bucket conf env nid rest s in (phi # kept, s'))
      else
        let (promote, s1) = page_should_be_promoted conf env phi s in
        if promote then
          let s2 = count_vm_event KPROMOTED_MIG_CANDIDATE s1;
              (ret, s3) = kpromote_page env phi s2
          in if ret = 0
             then migrate_bucket conf env nid rest (count_vm_event KPROMOTED_MIG_PROMOTED s3)
             else (let (kept, s') = migrate_bucket conf env nid rest s3 in (phi # kept, s'))
        else migrate_bucket conf env nid rest (count_vm_event KPROMOTED_MIG_DROPPED s1))"

text \<open>The loop over the buckets \<open>bkt, bkt + 1, \<dots>\<close>, \<open>n\<close> of them, each under its mutex.\<close>

fun migrate_buckets ::
  "kp_conf \<Rightarrow> mm_env \<Rightarrow> int \<Rightarrow> nat \<Rightarrow> nat \<Rightarrow> kp_state \<Rightarrow> unit kp_result" where
  "migrate_buckets conf env nid bkt 0 s = Inr ((), s)"
| "migrate_buckets conf env nid bkt (Suc n) s =
     (if bkt \<in> page_hotness_lock s then Inl (Self_deadlock, s)
      else
        let s1 = s\<lparr>page_hotness_lock := insert bkt (page_hotness_lock s)\<rparr>;
            (kept, s2) = migrate_bucket conf env nid (page_hotness_hash s1 bkt) s1;
            s3 = s2\<lparr>page_hotness_hash := (page_hotness_hash s2)(bkt := kept)\<rparr>;
            s4 = s3\<lparr>page_hotness_lock := page_hotness_lock s3 - {bkt}\<rparr>
        in migrate_buckets conf env nid (Suc bkt) n s4)"

definition kpromoted_migrate :: "kp_conf \<Rightarrow> mm_env \<Rightarrow> int \<Rightarrow> kp_state \<Rightarrow> unit kp_result" where
  "kpromoted_migrate conf env nid s = migrate_buckets conf env nid 0 (hash_size conf) s"

subsection \<open>kpromoted_lookup\<close>

text \<open>
  \<^verbatim>\<open>__kpromoted_lookup\<close> walks the bucket and returns the first record with the frame
  number, or NULL; it is \<open>kpromoted_lookup_raw\<close> here, and a pointer to a record is the
  record's position in the bucket (\<open>lookup_index\<close>).  \<^verbatim>\<open>kzalloc\<close> zeroes the new record,
  and \<^verbatim>\<open>hlist_add_head\<close> puts it first.
\<close>

fun lookup_index :: "u64 \<Rightarrow> page_hotness_info list \<Rightarrow> nat option" where
  "lookup_index p [] = None"
| "lookup_index p (phi # rest) =
     (if pfn phi = p then Some 0 else map_option Suc (lookup_index p rest))"

definition kpromoted_lookup_raw :: "u64 \<Rightarrow> nat \<Rightarrow> kp_state \<Rightarrow> phi_ptr" where
  "kpromoted_lookup_raw p bkt s =
     (case lookup_index p (page_hotness_hash s bkt) of None \<Rightarrow> NULL | Some i \<Rightarrow> Entry i)"

definition kpromoted_lookup ::
  "mm_env \<Rightarrow> u64 \<Rightarrow> nat \<Rightarrow> u64 \<Rightarrow> kp_state \<Rightarrow> phi_ptr \<times> kp_state" where
  "kpromoted_lookup env p bkt now s =
     (case kpromoted_lookup_raw p bkt s of
        NULL \<Rightarrow>
          if \<not> kzalloc_ok env then (ERR_PTR (- ENOMEM), s)
          else
            let phi = \<lparr>pfn = p, last_update = now, frequency = 1, recency = now, hot_node = 0\<rparr>;
                s1 = s\<lparr>page_hotness_hash :=
                        (page_hotness_hash s)(bkt := phi # page_hotness_hash s bkt)\<rparr>
            in (Entry 0, count_vm_event KPROMOTED_RECORD_ADDED s1)
      | found \<Rightarrow> (found, count_vm_event KPROMOTED_RECORD_EXISTS s))"

subsection \<open>kpromoted_record_access\<close>

text \<open>
  \<open>record_update\<close> is the block of \<^verbatim>\<open>kpromoted_record_access\<close> that runs on the record
  under the bucket's mutex: the window test, \<^verbatim>\<open>recency\<close> and \<^verbatim>\<open>hot_node\<close>.  The test
  is \<^verbatim>\<open>(phi->last_update - now) > msecs_to_jiffies(KPROMOTED_FREQ_WINDOW)\<close>, an unsigned
  subtraction in that order.  The function's \<^verbatim>\<open>if (!phi)\<close> is the \<open>NULL\<close> case, which
  leaves through \<^verbatim>\<open>out:\<close> without unlocking; the \<^verbatim>\<open>ERR_PTR\<close> that a failed allocation
  yields is not NULL, and the next statement reads through it.
\<close>

definition record_update :: "kp_conf \<Rightarrow> int \<Rightarrow> u64 \<Rightarrow> page_hotness_info \<Rightarrow> page_hotness_info" where
  "record_update conf nid now phi =
     (let phi1 = (if last_update phi - now > freq_window conf
                  then phi\<lparr>frequency := 1, last_update := now\<rparr>
                  else phi\<lparr>frequency := frequency phi + 1\<rparr>);
          phi2 = phi1\<lparr>recency := now\<rparr>
      in phi2\<lparr>hot_node := (if nid = NUMA_NO_NODE then 1 else nid)\<rparr>)"

definition kpromoted_record_access ::
  "kp_conf \<Rightarrow> mm_env \<Rightarrow> u64 \<Rightarrow> int \<Rightarrow> access_src \<Rightarrow> u64 \<Rightarrow> kp_state \<Rightarrow> int kp_result" where
  "kpromoted_record_access conf env p nid src now s =
     (let s1 = count_vm_event KPROMOTED_RECORDED_ACCESSES s;
          s2 = (case src of
                  KPROMOTED_HW_HINTS \<Rightarrow> count_vm_event KPROMOTED_RECORD_HWHINTS s1
                | KPROMOTED_PGTABLE_SCAN \<Rightarrow> count_vm_event KPROMOTED_RECORD_PGTSCANS s1
                | Other_src _ \<Rightarrow> s1)
      in
      if node_is_toptier env (pfn_to_nid env p)
      then Inr (0, count_vm_event KPROMOTED_RECORD_TOPTIER s2)
      else if \<not> pfn_to_online_page env p \<or> is_zone_device_page env p then Inr (0, s2)
      else if \<not> folio_test_lru env p then Inr (0, s2)
      else
        let bkt = hash_min conf p in
        if bkt \<in> page_hotness_lock s2 then Inl (Self_deadlock, s2)
        else
          let s3 = s2\<lparr>page_hotness_lock := insert bkt (page_hotness_lock s2)\<rparr>;
              (phi, s4) = kpromoted_lookup env p bkt now s3
          in case phi of
               NULL \<Rightarrow> Inr (0, s4)
             | ERR_PTR e \<Rightarrow> Inl (Bad_pointer_deref, s4)
             | Entry i \<Rightarrow>
                 let b = page_hotness_hash s4 bkt;
                     s5 = s4\<lparr>page_hotness_hash :=
                            (page_hotness_hash s4)(bkt := b[i := record_update conf nid now (b ! i)])\<rparr>
                 in Inr (0, s5\<lparr>page_hotness_lock := page_hotness_lock s5 - {bkt}\<rparr>))"

subsection \<open>Runs of the table's two operations\<close>

definition kp_state_of :: "'a kp_result \<Rightarrow> kp_state" where
  "kp_state_of r = (case r of Inl (f, s) \<Rightarrow> s | Inr (x, s) \<Rightarrow> s)"

text \<open>
  An operation on the table with what the kernel answers during it.  A run stops at the
  first fault, with the state the fault left.
\<close>

datatype kp_op =
    Record_access mm_env u64 int access_src u64
  | Sweep mm_env int

fun kp_run :: "kp_conf \<Rightarrow> kp_op list \<Rightarrow> kp_state \<Rightarrow> fault option \<times> kp_state" where
  "kp_run conf [] s = (None, s)"
| "kp_run conf (Record_access env p nid src now # ops) s =
     (case kpromoted_record_access conf env p nid src now s of
        Inl (f, s') \<Rightarrow> (Some f, s')
      | Inr (rc, s') \<Rightarrow> kp_run conf ops s')"
| "kp_run conf (Sweep env nid # ops) s =
     (case kpromoted_migrate conf env nid s of
        Inl (f, s') \<Rightarrow> (Some f, s')
      | Inr (u, s') \<Rightarrow> kp_run conf ops s')"

text \<open>All records of the table for one frame number, bucket by bucket.\<close>

definition records_for :: "kp_conf \<Rightarrow> kp_state \<Rightarrow> u64 \<Rightarrow> page_hotness_info list" where
  "records_for conf s p =
     filter (\<lambda>phi. pfn phi = p) (concat (map (page_hotness_hash s) [0..<hash_size conf]))"

text \<open>The invariant behind uniqueness: a bucket holds each frame number once, and only
  frame numbers that hash to it.\<close>

definition table_inv :: "kp_conf \<Rightarrow> kp_state \<Rightarrow> bool" where
  "table_inv conf s =
     (\<forall>b. distinct (map pfn (page_hotness_hash s b))
          \<and> (\<forall>phi \<in> set (page_hotness_hash s b). hash_min conf (pfn phi) = b))"

text \<open>The filters at the head of \<^verbatim>\<open>kpromoted_record_access\<close>, all passed.\<close>

definition eligible :: "mm_env \<Rightarrow> u64 \<Rightarrow> bool" where
  "eligible env p =
     (\<not> node_is_toptier env (pfn_to_nid env p) \<and> pfn_to_online_page env p
      \<and> \<not> is_zone_device_page env p \<and> folio_test_lru env p)"

text \<open>
  What the sweep does with one record, read off the two functions it calls (neither
  depends on the state it is run in): whether \<^verbatim>\<open>page_should_be_promoted\<close> says yes,
  what \<^verbatim>\<open>kpromote_page\<close> returns and which migration calls it makes.  A record of the
  swept node is \<open>attempted\<close> when it is classified for promotion, and it \<open>stays\<close> in
  the table when it belongs to another node or its promotion was attempted and failed.
\<close>

definition promotes :: "kp_conf \<Rightarrow> mm_env \<Rightarrow> page_hotness_info \<Rightarrow> bool" where
  "promotes conf env phi = fst (page_should_be_promoted conf env phi kp_init)"

definition promote_ret :: "mm_env \<Rightarrow> page_hotness_info \<Rightarrow> int" where
  "promote_ret env phi = fst (kpromote_page env phi kp_init)"

definition promote_calls :: "mm_env \<Rightarrow> page_hotness_info \<Rightarrow> mig_call list" where
  "promote_calls env phi = mig_calls (snd (kpromote_page env phi kp_init))"

definition attempted :: "kp_conf \<Rightarrow> mm_env \<Rightarrow> int \<Rightarrow> page_hotness_info \<Rightarrow> bool" where
  "attempted conf env nid phi = (hot_node phi = nid \<and> promotes conf env phi)"

definition stays :: "kp_conf \<Rightarrow> mm_env \<Rightarrow> int \<Rightarrow> page_hotness_info \<Rightarrow> bool" where
  "stays conf env nid phi =
     (if hot_node phi = nid then promotes conf env phi \<and> promote_ret env phi \<noteq> 0 else True)"

subsection \<open>A small configuration to run the table on\<close>

text \<open>
  Four buckets, a window of 1250 jiffies (five seconds at 250 Hz) and a threshold of
  two accesses.  In \<open>demo_env now alloc mig\<close> every frame is online, on the LRU and on
  node 1, node 0 is the top tier, the clock reads \<open>now\<close>, \<^verbatim>\<open>kzalloc\<close> succeeds iff
  \<open>alloc\<close> and \<^verbatim>\<open>migrate_misplaced_folio\<close> returns \<open>mig\<close>.
\<close>

definition demo_conf :: kp_conf where
  "demo_conf = \<lparr>freq_window = 1250, freq_threshold = 2,
                hash_min = (\<lambda>p. unat p mod 4), hash_size = 4\<rparr>"

definition demo_env :: "u64 \<Rightarrow> bool \<Rightarrow> int \<Rightarrow> mm_env" where
  "demo_env now alloc mig =
     \<lparr>pfn_to_nid = (\<lambda>_. 1), node_is_toptier = (\<lambda>n. n = 0),
      pfn_to_online_page = (\<lambda>_. True), is_zone_device_page = (\<lambda>_. False),
      folio_test_lru = (\<lambda>_. True), folio_nid = (\<lambda>_. 1), pfn_to_page = (\<lambda>_. True),
      migrate_misplaced_folio_prepare = (\<lambda>_ _. 0),
      migrate_misplaced_folio = (\<lambda>_ _. mig),
      jiffies = now, kzalloc_ok = alloc\<rparr>"

definition demo_access :: "u64 \<Rightarrow> kp_op" where
  "demo_access now = Record_access (demo_env now True 0) 5 0 KPROMOTED_HW_HINTS now"

text \<open>Three accesses to frame 5 from node 0 in the same jiffy, and the record they
  leave (the access that creates the record with frequency 1 goes on to count itself).\<close>

definition hot_phi :: page_hotness_info where
  "hot_phi = \<lparr>pfn = 5, last_update = 1000, frequency = 4, recency = 1000, hot_node = 0\<rparr>"


definition three_accesses :: kp_state where
  "three_accesses =
     snd (kp_run demo_conf [demo_access 1000, demo_access 1000, demo_access 1000] kp_init)"

text \<open>The same, followed by a sweep of node 0 in which the migration fails with
  \<^verbatim>\<open>-EAGAIN\<close>.\<close>

definition failed_promotion_run :: "fault option \<times> kp_state" where
  "failed_promotion_run =
     kp_run demo_conf [demo_access 1000, demo_access 1000, demo_access 1000,
                       Sweep (demo_env 1000 True (- 11)) 0] kp_init"

section \<open>The IBS sample ring\<close>

text \<open>
  The per-CPU buffer of access samples of the IBS driver: an array of
  \<^verbatim>\<open>IBS_NR_SAMPLES\<close> slots and two C \<^verbatim>\<open>int\<close> indices.  The indices stay within
  \<open>0 \<dots> 49\<close> (\<open>ring_ok\<close> below), so no 32-bit overflow can occur and they are HOL
  integers; an index outside the array is a fault.
\<close>

definition IBS_NR_SAMPLES :: int where
  "IBS_NR_SAMPLES = 50"

text \<open>\<^verbatim>\<open>struct ibs_sample\<close>; the fields are \<^verbatim>\<open>pfn\<close>, \<^verbatim>\<open>time\<close> and \<^verbatim>\<open>nid\<close>.\<close>

record ibs_sample =
  sample_pfn :: u64
  sample_time :: u64
  sample_nid :: int

record ibs_sample_pcpu =
  samples :: "ibs_sample list"
  head :: int
  tail :: int

datatype ring_fault = Index_out_of_bounds

text \<open>
  \<^verbatim>\<open>ibs_push_sample\<close> writes \<^verbatim>\<open>pfn\<close> and \<^verbatim>\<open>time\<close> into the slot at \<^verbatim>\<open>head\<close>; it has no
  statement that stores \<^verbatim>\<open>nid\<close>, so the slot keeps the node id it had.
\<close>

definition ibs_push_sample ::
  "u64 \<Rightarrow> int \<Rightarrow> u64 \<Rightarrow> ibs_sample_pcpu \<Rightarrow> ring_fault + (int \<times> ibs_sample_pcpu)" where
  "ibs_push_sample p nid t r =
     (let next = head r + 1;
          next = (if next \<ge> IBS_NR_SAMPLES then 0 else next)
      in if next = tail r then Inr (0, r)
         else if head r < 0 \<or> int (length (samples r)) \<le> head r then Inl Index_out_of_bounds
         else
           let i = nat (head r);
               slot = (samples r ! i)\<lparr>sample_pfn := p, sample_time := t\<rparr>
           in Inr (1, r\<lparr>samples := (samples r)[i := slot], head := next\<rparr>))"

text \<open>\<^verbatim>\<open>ibs_pop_sample(&s)\<close>: the caller's \<^verbatim>\<open>s\<close> goes in and comes back, overwritten
  when a sample was popped.\<close>

definition ibs_pop_sample ::
  "ibs_sample \<Rightarrow> ibs_sample_pcpu \<Rightarrow> ring_fault + (int \<times> ibs_sample \<times> ibs_sample_pcpu)" where
  "ibs_pop_sample s r =
     (let next = tail r + 1 in
      if head r = tail r then Inr (0, s, r)
      else
        let next = (if next \<ge> IBS_NR_SAMPLES then 0 else next) in
        if tail r < 0 \<or> int (length (samples r)) \<le> tail r then Inl Index_out_of_bounds
        else Inr (1, samples r ! nat (tail r), r\<lparr>tail := next\<rparr>))"

text \<open>
  The ring as a queue: its indices are in range, it holds \<open>ring_len\<close> samples, and
  \<open>ring_list\<close> lists them from \<^verbatim>\<open>tail\<close> to \<^verbatim>\<open>head\<close>.  \<open>sample_key\<close> is the part of a
  sample that a push stores.
\<close>

definition ring_ok :: "ibs_sample_pcpu \<Rightarrow> bool" where
  "ring_ok r = (0 \<le> head r \<and> head r < 50 \<and> 0 \<le> tail r \<and> tail r < 50
                \<and> length (samples r) = 50)"

definition ring_len :: "ibs_sample_pcpu \<Rightarrow> nat" where
  "ring_len r = nat ((head r - tail r) mod 50)"

definition ring_list :: "ibs_sample_pcpu \<Rightarrow> ibs_sample list" where
  "ring_list r = map (\<lambda>i. samples r ! nat ((tail r + int i) mod 50)) [0..<ring_len r]"

definition sample_key :: "ibs_sample \<Rightarrow> u64 \<times> u64" where
  "sample_key s = (sample_pfn s, sample_time s)"

text \<open>
  The end of \<^verbatim>\<open>ibs_overflow_handler\<close>, from the call of \<^verbatim>\<open>ibs_push_sample\<close> on, for a
  sample that has passed the handler's filters: a refused push bumps
  \<^verbatim>\<open>HWHINT_BUFFER_FULL\<close>, an accepted one \<^verbatim>\<open>HWHINT_USEFUL_SAMPLES\<close> (and queues the work
  that drains the ring).  The counters are the sequence of \<^verbatim>\<open>count_vm_event\<close> calls.
\<close>

definition ibs_overflow_handler_store ::
  "u64 \<Rightarrow> int \<Rightarrow> u64 \<Rightarrow> ibs_sample_pcpu \<times> vm_event list
     \<Rightarrow> ring_fault + (ibs_sample_pcpu \<times> vm_event list)" where
  "ibs_overflow_handler_store p nid t st =
     (case ibs_push_sample p nid t (fst st) of
        Inl f \<Rightarrow> Inl f
      | Inr (rc, r') \<Rightarrow>
          if rc = 0 then Inr (r', snd st @ [HWHINT_BUFFER_FULL])
          else Inr (r', snd st @ [HWHINT_USEFUL_SAMPLES]))"

text \<open>A burst of samples through the handler with no pop in between, and up to \<open>n\<close>
  pops in a row (the loop of \<^verbatim>\<open>ibs_work_handler\<close>, which stops at the first empty pop).\<close>

fun push_all ::
  "(u64 \<times> int \<times> u64) list \<Rightarrow> ibs_sample_pcpu \<times> vm_event list
     \<Rightarrow> ring_fault + (ibs_sample_pcpu \<times> vm_event list)" where
  "push_all [] st = Inr st"
| "push_all ((p, nid, t) # xs) st =
     (case ibs_overflow_handler_store p nid t st of
        Inl f \<Rightarrow> Inl f
      | Inr st' \<Rightarrow> push_all xs st')"

fun pop_n :: "nat \<Rightarrow> ibs_sample \<Rightarrow> ibs_sample_pcpu
     \<Rightarrow> ring_fault + (ibs_sample list \<times> ibs_sample_pcpu)" where
  "pop_n 0 s r = Inr ([], r)"
| "pop_n (Suc n) s r =
     (case ibs_pop_sample s r of
        Inl f \<Rightarrow> Inl f
      | Inr (rc, s', r') \<Rightarrow>
          if rc = 0 then Inr ([], r')
          else (case pop_n n s' r' of
                  Inl f \<Rightarrow> Inl f
                | Inr (out, r'') \<Rightarrow> Inr (s' # out, r'')))"

text \<open>The buffer as \<^verbatim>\<open>alloc_percpu_gfp(\<dots>, __GFP_ZERO)\<close> leaves it, and \<open>n\<close> samples
  numbered from 0, all observed on node 3.\<close>

definition ring_zero :: ibs_sample_pcpu where
  "ring_zero = \<lparr>samples = replicate 50 \<lparr>sample_pfn = 0, sample_time = 0, sample_nid = 0\<rparr>,
                head = 0, tail = 0\<rparr>"

definition numbered_samples :: "nat \<Rightarrow> (u64 \<times> int \<times> u64) list" where
  "numbered_samples n = map (\<lambda>i. (of_nat i, 3, of_nat (1000 + i))) [0..<n]"

definition dropped_count :: "ring_fault + (ibs_sample_pcpu \<times> vm_event list) \<Rightarrow> nat" where
  "dropped_count res = (case res of Inl f \<Rightarrow> 0 | Inr st \<Rightarrow> count_list (snd st) HWHINT_BUFFER_FULL)"

definition overfilled_ring :: "ring_fault + (ibs_sample_pcpu \<times> vm_event list)" where
  "overfilled_ring = push_all (numbered_samples 51) (ring_zero, [])"

definition first_popped :: "ring_fault + (ibs_sample_pcpu \<times> vm_event list) \<Rightarrow> ibs_sample option" where
  "first_popped res =
     (case res of
        Inl f \<Rightarrow> None
      | Inr st \<Rightarrow>
          (case ibs_pop_sample \<lparr>sample_pfn = 0, sample_time = 0, sample_nid = 0\<rparr> (fst st) of
             Inl f \<Rightarrow> None
           | Inr (rc, s, r) \<Rightarrow> if rc = 0 then None else Some s))"


section \<open>Proofs: the hotness table\<close>

subsection \<open>The pieces of the sweep\<close>

lemma psbp_fst: "fst (page_should_be_promoted conf env phi s) = promotes conf env phi"
  by (simp add: page_should_be_promoted_def promotes_def Let_def)

lemma psbp_table:
  "page_hotness_hash (snd (page_should_be_promoted conf env phi s)) = page_hotness_hash s"
  "page_hotness_lock (snd (page_should_be_promoted conf env phi s)) = page_hotness_lock s"
  "mig_calls (snd (page_should_be_promoted conf env phi s)) = mig_calls s"
  by (simp_all add: page_should_be_promoted_def Let_def count_vm_event_def)

lemma kpromote_page_fst: "fst (kpromote_page env phi s) = promote_ret env phi"
  by (simp add: kpromote_page_def promote_ret_def Let_def)

lemma kpromote_page_snd:
  "page_hotness_hash (snd (kpromote_page env phi s)) = page_hotness_hash s"
  "page_hotness_lock (snd (kpromote_page env phi s)) = page_hotness_lock s"
  "mig_calls (snd (kpromote_page env phi s)) = mig_calls s @ promote_calls env phi"
  by (simp_all add: kpromote_page_def promote_calls_def Let_def kp_init_def)

lemma count_vm_event_simps [simp]:
  "page_hotness_hash (count_vm_event e s) = page_hotness_hash s"
  "page_hotness_lock (count_vm_event e s) = page_hotness_lock s"
  "mig_calls (count_vm_event e s) = mig_calls s"
  "vm_events (count_vm_event e s) = vm_events s @ [e]"
  by (simp_all add: count_vm_event_def)

lemma migrate_bucket_step:
  "migrate_bucket conf env nid (phi # rest) s =
     (if hot_node phi \<noteq> nid
      then (phi # fst (migrate_bucket conf env nid rest s),
            snd (migrate_bucket conf env nid rest s))
      else if \<not> promotes conf env phi
      then migrate_bucket conf env nid rest
             (count_vm_event KPROMOTED_MIG_DROPPED
                (snd (page_should_be_promoted conf env phi s)))
      else
        let s3 = snd (kpromote_page env phi
                   (count_vm_event KPROMOTED_MIG_CANDIDATE
                      (snd (page_should_be_promoted conf env phi s))))
        in if promote_ret env phi = 0
           then migrate_bucket conf env nid rest (count_vm_event KPROMOTED_MIG_PROMOTED s3)
           else (phi # fst (migrate_bucket conf env nid rest s3),
                 snd (migrate_bucket conf env nid rest s3)))"
  by (simp add: case_prod_beta Let_def psbp_fst kpromote_page_fst)

lemma migrate_bucket_eq:
  "fst (migrate_bucket conf env nid xs s) = filter (stays conf env nid) xs
   \<and> page_hotness_hash (snd (migrate_bucket conf env nid xs s)) = page_hotness_hash s
   \<and> page_hotness_lock (snd (migrate_bucket conf env nid xs s)) = page_hotness_lock s
   \<and> mig_calls (snd (migrate_bucket conf env nid xs s))
       = mig_calls s @ concat (map (promote_calls env) (filter (attempted conf env nid) xs))"
proof (induction xs arbitrary: s)
  case Nil
  then show ?case by simp
next
  case (Cons phi rest)
  show ?case
    unfolding migrate_bucket_step
    by (simp add: Cons.IH Let_def stays_def [of conf env nid phi]
        attempted_def [of conf env nid phi] psbp_table kpromote_page_snd)
qed


lemma migrate_buckets_eq:
  assumes "page_hotness_lock s = {}"
  shows "\<exists>s'. migrate_buckets conf env nid bkt n s = Inr ((), s')
     \<and> page_hotness_lock s' = {}
     \<and> (\<forall>b. page_hotness_hash s' b =
           (if bkt \<le> b \<and> b < bkt + n then filter (stays conf env nid) (page_hotness_hash s b)
            else page_hotness_hash s b))
     \<and> mig_calls s' = mig_calls s @
          concat (map (\<lambda>b. concat (map (promote_calls env)
                    (filter (attempted conf env nid) (page_hotness_hash s b)))) [bkt..<bkt + n])"
  using assms
proof (induction n arbitrary: bkt s)
  case 0
  then show ?case by auto
next
  case (Suc n)
  let ?s1 = "s\<lparr>page_hotness_lock := insert bkt (page_hotness_lock s)\<rparr>"
  let ?r = "migrate_bucket conf env nid (page_hotness_hash s bkt) ?s1"
  let ?s4 = "(snd ?r)\<lparr>page_hotness_hash := (page_hotness_hash (snd ?r))(bkt := fst ?r),
                page_hotness_lock := page_hotness_lock (snd ?r) - {bkt}\<rparr>"
  have step: "migrate_buckets conf env nid bkt (Suc n) s = migrate_buckets conf env nid (Suc bkt) n ?s4"
    using Suc.prems by (simp add: case_prod_beta Let_def)
  have mb: "fst ?r = filter (stays conf env nid) (page_hotness_hash s bkt)"
    "page_hotness_hash (snd ?r) = page_hotness_hash s"
    "page_hotness_lock (snd ?r) = {bkt}"
    "mig_calls (snd ?r) = mig_calls s @ concat (map (promote_calls env)
        (filter (attempted conf env nid) (page_hotness_hash s bkt)))"
    using migrate_bucket_eq [of conf env nid "page_hotness_hash s bkt" ?s1] Suc.prems
    by simp_all
  have l4: "page_hotness_lock ?s4 = {}" using mb by simp
  have h4: "page_hotness_hash ?s4 = (page_hotness_hash s)(bkt := filter (stays conf env nid) (page_hotness_hash s bkt))"
    using mb by simp
  have m4: "mig_calls ?s4 = mig_calls s @ concat (map (promote_calls env)
        (filter (attempted conf env nid) (page_hotness_hash s bkt)))"
    using mb by simp
  from Suc.IH [OF l4, of "Suc bkt"] obtain s' where
    r: "migrate_buckets conf env nid (Suc bkt) n ?s4 = Inr ((), s')"
    and l: "page_hotness_lock s' = {}"
    and h: "\<forall>b. page_hotness_hash s' b =
           (if Suc bkt \<le> b \<and> b < Suc bkt + n
            then filter (stays conf env nid) (page_hotness_hash ?s4 b)
            else page_hotness_hash ?s4 b)"
    and m: "mig_calls s' = mig_calls ?s4 @
          concat (map (\<lambda>b. concat (map (promote_calls env)
                    (filter (attempted conf env nid) (page_hotness_hash ?s4 b))))
                  [Suc bkt..<Suc bkt + n])"
    by blast
  have h': "\<forall>b. page_hotness_hash s' b =
           (if bkt \<le> b \<and> b < bkt + Suc n
            then filter (stays conf env nid) (page_hotness_hash s b)
            else page_hotness_hash s b)"
  proof
    fix b
    show "page_hotness_hash s' b =
           (if bkt \<le> b \<and> b < bkt + Suc n
            then filter (stays conf env nid) (page_hotness_hash s b)
            else page_hotness_hash s b)"
      using h [rule_format, of b] unfolding h4 by (cases "b = bkt") auto
  qed
  have same: "map (\<lambda>b. concat (map (promote_calls env)
                    (filter (attempted conf env nid) (page_hotness_hash ?s4 b))))
                  [Suc bkt..<Suc bkt + n]
            = map (\<lambda>b. concat (map (promote_calls env)
                    (filter (attempted conf env nid) (page_hotness_hash s b))))
                  [Suc bkt..<Suc bkt + n]"
    unfolding h4 by (rule map_cong) auto
  have up: "[bkt..<bkt + Suc n] = bkt # [Suc bkt..<Suc bkt + n]"
    by (simp add: upt_conv_Cons)
  have m': "mig_calls s' = mig_calls s @
          concat (map (\<lambda>b. concat (map (promote_calls env)
                    (filter (attempted conf env nid) (page_hotness_hash s b)))) [bkt..<bkt + Suc n])"
    unfolding m same m4 up by simp
  show ?case using step r l h' m' by simp
qed

subsection \<open>The table invariant\<close>

lemma lookup_index_None: "lookup_index p xs = None \<longleftrightarrow> p \<notin> pfn ` set xs"
  by (induction xs) auto

lemma lookup_index_Some:
  "lookup_index p xs = Some i \<Longrightarrow> i < length xs \<and> pfn (xs ! i) = p"
  by (induction xs arbitrary: i) (auto split: if_splits)

lemma record_update_pfn: "pfn (record_update conf nid now phi) = pfn phi"
  by (simp add: record_update_def Let_def)

lemma map_pfn_list_update:
  "map pfn (xs[i := record_update conf nid now (xs ! i)]) = map pfn xs"
  by (induction xs arbitrary: i) (auto simp: record_update_pfn split: nat.splits)

lemma record_access_table:
  "page_hotness_hash (kp_state_of (kpromoted_record_access conf env p nid src now s)) =
     (if eligible env p \<and> hash_min conf p \<notin> page_hotness_lock s
      then (case lookup_index p (page_hotness_hash s (hash_min conf p)) of
              None \<Rightarrow>
                if kzalloc_ok env
                then (page_hotness_hash s)(hash_min conf p :=
                       record_update conf nid now
                         \<lparr>pfn = p, last_update = now, frequency = 1, recency = now, hot_node = 0\<rparr>
                       # page_hotness_hash s (hash_min conf p))
                else page_hotness_hash s
            | Some i \<Rightarrow>
                (page_hotness_hash s)(hash_min conf p :=
                   (page_hotness_hash s (hash_min conf p))
                     [i := record_update conf nid now (page_hotness_hash s (hash_min conf p) ! i)]))
      else page_hotness_hash s)"
  by (cases src)
    (simp_all add: kpromoted_record_access_def kpromoted_lookup_def kpromoted_lookup_raw_def
      kp_state_of_def eligible_def Let_def count_vm_event_def split: option.splits)


lemma set_list_update_pfn:
  assumes "phi \<in> set (xs[i := record_update conf nid now (xs ! i)])"
  shows "pfn phi \<in> pfn ` set xs"
proof -
  have "pfn phi \<in> set (map pfn (xs[i := record_update conf nid now (xs ! i)]))"
    using assms by (simp del: map_update)
  then show ?thesis by (simp only: map_pfn_list_update set_map)
qed

lemma table_inv_init: "table_inv conf kp_init"
  by (simp add: table_inv_def kp_init_def)

lemma table_inv_bucket:
  assumes "table_inv conf s"
  shows "distinct (map pfn (page_hotness_hash s b))"
    and "phi \<in> set (page_hotness_hash s b) \<Longrightarrow> hash_min conf (pfn phi) = b"
  using assms by (auto simp: table_inv_def)

lemma table_inv_record_access:
  assumes inv: "table_inv conf s"
  shows "table_inv conf (kp_state_of (kpromoted_record_access conf env p nid src now s))"
proof -
  let ?k = "hash_min conf p"
  let ?b = "page_hotness_hash s ?k"
  let ?t = "page_hotness_hash (kp_state_of (kpromoted_record_access conf env p nid src now s))"
  have same: "?t = page_hotness_hash s \<Longrightarrow> ?thesis"
    using inv by (simp add: table_inv_def)
  show ?thesis
  proof (cases "eligible env p \<and> ?k \<notin> page_hotness_lock s")
    case False
    then have "?t = page_hotness_hash s" by (simp only: record_access_table if_False)
    then show ?thesis by (rule same)
  next
    case True
    show ?thesis
    proof (cases "lookup_index p ?b")
      case None
      show ?thesis
      proof (cases "kzalloc_ok env")
        case False
        then have "?t = page_hotness_hash s" using True None by (simp add: record_access_table)
        then show ?thesis by (rule same)
      next
        case ok: True
        have t: "?t = (page_hotness_hash s)(?k :=
                   record_update conf nid now
                     \<lparr>pfn = p, last_update = now, frequency = 1, recency = now, hot_node = 0\<rparr> # ?b)"
          using True None ok by (simp add: record_access_table)
        have fresh: "p \<notin> pfn ` set ?b" using None by (simp add: lookup_index_None)
        show ?thesis
          unfolding table_inv_def t
          using fresh table_inv_bucket [OF inv]
          by (auto simp: record_update_pfn)
      qed
    next
      case (Some i)
      have t: "?t = (page_hotness_hash s)(?k := ?b[i := record_update conf nid now (?b ! i)])"
        using True Some by (simp add: record_access_table)
      show ?thesis
        unfolding table_inv_def t
        using table_inv_bucket [OF inv]
        by (auto simp: map_pfn_list_update simp del: map_update dest!: set_list_update_pfn)
    qed
  qed
qed

lemma table_inv_filter:
  assumes "table_inv conf s"
    and "\<forall>b. page_hotness_hash s' b =
           (if b < n then filter P (page_hotness_hash s b) else page_hotness_hash s b)"
  shows "table_inv conf s'"
  using assms by (auto simp: table_inv_def distinct_map_filter)

lemma kpromoted_migrate_eq:
  assumes "page_hotness_lock s = {}"
  shows "\<exists>s'. kpromoted_migrate conf env nid s = Inr ((), s')
     \<and> page_hotness_lock s' = {}
     \<and> (\<forall>b. page_hotness_hash s' b =
           (if b < hash_size conf then filter (stays conf env nid) (page_hotness_hash s b)
            else page_hotness_hash s b))
     \<and> mig_calls s' = mig_calls s @
          concat (map (\<lambda>b. concat (map (promote_calls env)
                    (filter (attempted conf env nid) (page_hotness_hash s b))))
                  [0..<hash_size conf])"
  using migrate_buckets_eq [OF assms, of conf env nid 0 "hash_size conf"]
  by (simp add: kpromoted_migrate_def)

lemma record_access_lock:
  assumes "page_hotness_lock s = {}"
    and "kpromoted_record_access conf env p nid src now s = Inr (rc, s')"
  shows "page_hotness_lock s' = {} \<and> rc = 0"
  using assms
  by (cases src)
    (auto simp: kpromoted_record_access_def kpromoted_lookup_def kpromoted_lookup_raw_def
      Let_def count_vm_event_def split: option.splits if_splits)

lemma kp_run_inv:
  assumes "table_inv conf s" and "page_hotness_lock s = {}"
  shows "table_inv conf (snd (kp_run conf ops s))"
  using assms
proof (induction ops arbitrary: s)
  case Nil
  then show ?case by simp
next
  case (Cons op ops)
  show ?case
  proof (cases op)
    case (Record_access env p nid src now)
    let ?r = "kpromoted_record_access conf env p nid src now s"
    have inv': "table_inv conf (kp_state_of ?r)"
      by (rule table_inv_record_access [OF Cons.prems(1)])
    show ?thesis
    proof (cases ?r)
      case (Inl a)
      then show ?thesis using inv' Record_access
        by (cases a) (simp add: kp_state_of_def)
    next
      case (Inr a)
      obtain rc s' where a: "a = (rc, s')" by (cases a)
      have "page_hotness_lock s' = {}"
        using record_access_lock [OF Cons.prems(2)] Inr a by blast
      moreover have "table_inv conf s'" using inv' Inr a by (simp add: kp_state_of_def)
      ultimately show ?thesis using Cons.IH [of s'] Inr a Record_access by simp
    qed
  next
    case (Sweep env nid)
    from kpromoted_migrate_eq [OF Cons.prems(2), of conf env nid] obtain s' where
      r: "kpromoted_migrate conf env nid s = Inr ((), s')"
      and l: "page_hotness_lock s' = {}"
      and h: "\<forall>b. page_hotness_hash s' b =
           (if b < hash_size conf then filter (stays conf env nid) (page_hotness_hash s b)
            else page_hotness_hash s b)"
      by blast
    have "table_inv conf s'" by (rule table_inv_filter [OF Cons.prems(1) h])
    then show ?thesis using Cons.IH [of s'] l r Sweep by simp
  qed
qed

lemma filter_pfn_distinct:
  "distinct (map pfn xs) \<Longrightarrow> length (filter (\<lambda>phi. pfn phi = p) xs) \<le> 1"
proof (induction xs)
  case Nil
  then show ?case by simp
next
  case (Cons a xs)
  show ?case
  proof (cases "pfn a = p")
    case True
    then have "p \<notin> pfn ` set xs" using Cons.prems by simp
    then have "filter (\<lambda>phi. pfn phi = p) xs = []"
      by (auto simp: filter_empty_conv)
    then show ?thesis using True by simp
  next
    case False
    then show ?thesis using Cons by simp
  qed
qed

lemma length_filter_concat_le:
  assumes "distinct bs"
    and "\<And>b. b \<in> set bs \<Longrightarrow> b \<noteq> k \<Longrightarrow> filter P (f b) = []"
    and "length (filter P (f k)) \<le> 1"
  shows "length (filter P (concat (map f bs))) \<le> 1"
  using assms
proof (induction bs)
  case Nil
  then show ?case by simp
next
  case (Cons b bs)
  show ?case
  proof (cases "b = k")
    case True
    then have "k \<notin> set bs" using Cons.prems(1) by simp
    then have "\<And>b. b \<in> set bs \<Longrightarrow> filter P (f b) = []"
      using Cons.prems(2) by auto
    then have "filter P (concat (map f bs)) = []"
      by (induction bs) auto
    then show ?thesis using True Cons.prems(3) by simp
  next
    case False
    then have "filter P (f b) = []" using Cons.prems(2) by simp
    moreover have "length (filter P (concat (map f bs))) \<le> 1"
      using Cons.IH Cons.prems by simp
    ultimately show ?thesis by simp
  qed
qed

lemma table_inv_unique:
  assumes "table_inv conf s"
  shows "length (records_for conf s p) \<le> 1"
  unfolding records_for_def
proof (rule length_filter_concat_le [where k = "hash_min conf p"])
  show "distinct [0..<hash_size conf]" by simp
next
  fix b assume "b \<noteq> hash_min conf p"
  then show "filter (\<lambda>phi. pfn phi = p) (page_hotness_hash s b) = []"
    using table_inv_bucket(2) [OF assms] by (auto simp: filter_empty_conv)
next
  show "length (filter (\<lambda>phi. pfn phi = p) (page_hotness_hash s (hash_min conf p))) \<le> 1"
    by (rule filter_pfn_distinct [OF table_inv_bucket(1) [OF assms]])
qed

lemma kpromoted_record_access_returns_0:
  "kpromoted_record_access conf env p nid src now s = Inr (rc, s') \<Longrightarrow> rc = 0"
  by (cases src)
    (auto simp: kpromoted_record_access_def kpromoted_lookup_def kpromoted_lookup_raw_def
      Let_def split: option.splits if_splits)

lemma promote_calls_eq:
  "promote_calls env phi =
     (if \<not> pfn_to_page env (pfn phi) then []
      else if migrate_misplaced_folio_prepare env (pfn phi) (hot_node phi) \<noteq> 0
      then [Migrate_prepare (pfn phi) (hot_node phi)]
      else [Migrate_prepare (pfn phi) (hot_node phi), Migrate_folio (pfn phi) (hot_node phi)])"
  by (simp add: promote_calls_def kpromote_page_def kp_init_def Let_def)

lemma promote_ret_eq:
  "promote_ret env phi =
     (if \<not> pfn_to_page env (pfn phi) then 1
      else if migrate_misplaced_folio_prepare env (pfn phi) (hot_node phi) \<noteq> 0 then 1
      else migrate_misplaced_folio env (pfn phi) (hot_node phi))"
  by (simp add: promote_ret_def kpromote_page_def Let_def)

subsection \<open>The promotion decision\<close>

text \<open>
  Claim C2.  For a record whose page is eligible at sweep time (online, not a device
  page, on the LRU), \<^verbatim>\<open>page_should_be_promoted\<close> answers yes exactly when the frequency
  has reached the threshold, the record was updated no longer than two windows ago and
  the node of the record differs from the node the page is on.  When one of the three
  fails the answer is no, and the counter that is bumped tells which: the page is
  already on the node (wrong tier), the record is old, or the page was not accessed
  often enough (both cold).  Times are unsigned jiffies and their difference wraps.
\<close>

theorem page_should_be_promoted_classes:
  assumes "pfn_to_online_page env (pfn phi)"
    and "\<not> is_zone_device_page env (pfn phi)"
    and "folio_test_lru env (pfn phi)"
  shows "(page_should_be_promoted conf env phi s = (True, s)) =
           (freq_threshold conf \<le> frequency phi
            \<and> jiffies env - last_update phi \<le> 2 * freq_window conf
            \<and> hot_node phi \<noteq> folio_nid env (pfn phi))
         \<and> (hot_node phi = folio_nid env (pfn phi) \<longrightarrow>
              page_should_be_promoted conf env phi s
                = (False, count_vm_event KPROMOTED_MIG_RIGHT_NODE s))
         \<and> (hot_node phi \<noteq> folio_nid env (pfn phi)
              \<and> \<not> jiffies env - last_update phi \<le> 2 * freq_window conf \<longrightarrow>
              page_should_be_promoted conf env phi s
                = (False, count_vm_event KPROMOTED_MIG_COLD_OLD s))
         \<and> (hot_node phi \<noteq> folio_nid env (pfn phi)
              \<and> jiffies env - last_update phi \<le> 2 * freq_window conf
              \<and> frequency phi < freq_threshold conf \<longrightarrow>
              page_should_be_promoted conf env phi s
                = (False, count_vm_event KPROMOTED_MIG_COLD_NOT_ACCESSED s))"
  using assms by (auto simp: page_should_be_promoted_def Let_def not_le count_vm_event_def)

theorem page_should_be_promoted_classes_witness:
  "page_should_be_promoted demo_conf (demo_env 1000 True 0) hot_phi kp_init = (True, kp_init)
   \<and> page_should_be_promoted demo_conf (demo_env 1000 True 0) (hot_phi\<lparr>frequency := 1\<rparr>) kp_init
       = (False, count_vm_event KPROMOTED_MIG_COLD_NOT_ACCESSED kp_init)
   \<and> page_should_be_promoted demo_conf (demo_env 5000 True 0) hot_phi kp_init
       = (False, count_vm_event KPROMOTED_MIG_COLD_OLD kp_init)
   \<and> page_should_be_promoted demo_conf (demo_env 1000 True 0) (hot_phi\<lparr>hot_node := 1\<rparr>) kp_init
       = (False, count_vm_event KPROMOTED_MIG_RIGHT_NODE kp_init)"
proof -
  have e: "pfn_to_online_page (demo_env t True 0) (pfn phi)"
    "\<not> is_zone_device_page (demo_env t True 0) (pfn phi)"
    "folio_test_lru (demo_env t True 0) (pfn phi)" for t phi
    by (simp_all add: demo_env_def)
  show ?thesis
    using
      page_should_be_promoted_classes [where env = "demo_env 1000 True 0" and phi = hot_phi
        and conf = demo_conf and s = kp_init]
      page_should_be_promoted_classes [where env = "demo_env 1000 True 0"
        and phi = "hot_phi\<lparr>frequency := 1\<rparr>" and conf = demo_conf and s = kp_init]
      page_should_be_promoted_classes [where env = "demo_env 5000 True 0" and phi = hot_phi
        and conf = demo_conf and s = kp_init]
      page_should_be_promoted_classes [where env = "demo_env 1000 True 0"
        and phi = "hot_phi\<lparr>hot_node := 1\<rparr>" and conf = demo_conf and s = kp_init]
    by (simp add: e) (simp add: demo_env_def demo_conf_def hot_phi_def)
qed

subsection \<open>The sweep\<close>

text \<open>
  Claim C3, as the code has it.  A sweep of node \<open>nid\<close> that starts with no bucket
  mutex held returns, and bucket by bucket: a record of another node is left alone; a
  record of this node that is classified for promotion is handed to \<^verbatim>\<open>kpromote_page\<close>
  once, which calls the migration code for (frame, \<open>nid\<close>) and, when the page can be
  isolated, makes exactly one \<^verbatim>\<open>migrate_misplaced_folio\<close> call; the record is removed when
  that attempt returns 0 and stays in the table when it fails; every other record of
  this node is removed and no migration call is made for it.
\<close>

theorem kpromoted_migrate_sweep:
  assumes "page_hotness_lock s = {}"
  shows "\<exists>s'. kpromoted_migrate conf env nid s = Inr ((), s')
     \<and> (\<forall>b. page_hotness_hash s' b =
           (if b < hash_size conf then filter (stays conf env nid) (page_hotness_hash s b)
            else page_hotness_hash s b))
     \<and> mig_calls s' = mig_calls s @
          concat (map (\<lambda>b. concat (map (promote_calls env)
                    (filter (attempted conf env nid) (page_hotness_hash s b))))
                  [0..<hash_size conf])
     \<and> (\<forall>phi. attempted conf env nid phi \<and> pfn_to_page env (pfn phi)
              \<and> migrate_misplaced_folio_prepare env (pfn phi) nid = 0 \<longrightarrow>
            promote_calls env phi = [Migrate_prepare (pfn phi) nid, Migrate_folio (pfn phi) nid]
            \<and> stays conf env nid phi = (migrate_misplaced_folio env (pfn phi) nid \<noteq> 0))
     \<and> (\<forall>phi. hot_node phi = nid \<and> \<not> promotes conf env phi \<longrightarrow> \<not> stays conf env nid phi)"
proof -
  from kpromoted_migrate_eq [OF assms, of conf env nid] obtain s' where
    "kpromoted_migrate conf env nid s = Inr ((), s')"
    "\<forall>b. page_hotness_hash s' b =
           (if b < hash_size conf then filter (stays conf env nid) (page_hotness_hash s b)
            else page_hotness_hash s b)"
    "mig_calls s' = mig_calls s @
          concat (map (\<lambda>b. concat (map (promote_calls env)
                    (filter (attempted conf env nid) (page_hotness_hash s b))))
                  [0..<hash_size conf])"
    by blast
  moreover have "\<forall>phi. attempted conf env nid phi \<and> pfn_to_page env (pfn phi)
              \<and> migrate_misplaced_folio_prepare env (pfn phi) nid = 0 \<longrightarrow>
            promote_calls env phi = [Migrate_prepare (pfn phi) nid, Migrate_folio (pfn phi) nid]
            \<and> stays conf env nid phi = (migrate_misplaced_folio env (pfn phi) nid \<noteq> 0)"
    by (simp add: attempted_def stays_def promote_calls_eq promote_ret_eq)
  moreover have "\<forall>phi. hot_node phi = nid \<and> \<not> promotes conf env phi \<longrightarrow> \<not> stays conf env nid phi"
    by (simp add: stays_def)
  ultimately show ?thesis by blast
qed

theorem kpromoted_migrate_sweep_witness:
  "\<exists>s'. kpromoted_migrate demo_conf (demo_env 1000 True 0) 0 three_accesses = Inr ((), s')
     \<and> page_hotness_hash three_accesses 1 = [hot_phi]
     \<and> page_hotness_hash s' 1 = []
     \<and> mig_calls s' = [Migrate_prepare 5 0, Migrate_folio 5 0]"
proof -
  have l: "page_hotness_lock three_accesses = {}"
    unfolding three_accesses_def by code_simp
  have t: "page_hotness_hash three_accesses 0 = []"
    "page_hotness_hash three_accesses 1 = [hot_phi]"
    "page_hotness_hash three_accesses 2 = []"
    "page_hotness_hash three_accesses 3 = []"
    unfolding three_accesses_def hot_phi_def by code_simp+
  have m: "mig_calls three_accesses = []"
    unfolding three_accesses_def by code_simp
  have a: "attempted demo_conf (demo_env 1000 True 0) 0 hot_phi"
    by code_simp
  have st: "\<not> stays demo_conf (demo_env 1000 True 0) 0 hot_phi"
    by code_simp
  have c: "promote_calls (demo_env 1000 True 0) hot_phi = [Migrate_prepare 5 0, Migrate_folio 5 0]"
    by code_simp
  have u: "[0..<hash_size demo_conf] = [0, 1, 2, 3]"
    by code_simp
  from kpromoted_migrate_sweep [OF l, of demo_conf "demo_env 1000 True 0" 0] obtain s' where
    r: "kpromoted_migrate demo_conf (demo_env 1000 True 0) 0 three_accesses = Inr ((), s')"
    and h: "\<forall>b. page_hotness_hash s' b =
           (if b < hash_size demo_conf
            then filter (stays demo_conf (demo_env 1000 True 0) 0) (page_hotness_hash three_accesses b)
            else page_hotness_hash three_accesses b)"
    and mc: "mig_calls s' = mig_calls three_accesses @
          concat (map (\<lambda>b. concat (map (promote_calls (demo_env 1000 True 0))
                    (filter (attempted demo_conf (demo_env 1000 True 0) 0)
                       (page_hotness_hash three_accesses b))))
                  [0..<hash_size demo_conf])"
    by blast
  have hs: "hash_size demo_conf = 4" by (simp add: demo_conf_def)
  have "page_hotness_hash s' 1 = []"
    using h [rule_format, of 1] by (simp add: t [unfolded One_nat_def] st hs)
  moreover have "mig_calls s' = [Migrate_prepare 5 0, Migrate_folio 5 0]"
    unfolding mc u by (simp add: t t [unfolded One_nat_def] m a c)
  ultimately show ?thesis using r t(2) by blast
qed

theorem kpromoted_migrate_failed_counterexample:
  "fst failed_promotion_run = None
   \<and> records_for demo_conf (snd failed_promotion_run) 5 = [hot_phi]
   \<and> mig_calls (snd failed_promotion_run) = [Migrate_prepare 5 0, Migrate_folio 5 0]"
  unfolding failed_promotion_run_def hot_phi_def by code_simp

subsection \<open>One record per frame\<close>

text \<open>
  Claim C9.  After any sequence of \<^verbatim>\<open>kpromoted_record_access\<close> calls and sweeps, run
  from the empty table with whatever the kernel answers in each, the table holds at
  most one record for a frame number (also in the state a faulting call leaves).
  The reason is in \<^verbatim>\<open>kpromoted_lookup\<close>: a record is added to the bucket the frame
  hashes to only after the walk of that bucket found none, and the sweep only removes.
\<close>

theorem one_record_per_pfn:
  "length (records_for conf (snd (kp_run conf ops kp_init)) p) \<le> 1"
  by (rule table_inv_unique [OF kp_run_inv [OF table_inv_init]]) (simp add: kp_init_def)

theorem one_record_per_pfn_witness:
  "length (records_for demo_conf
     (snd (kp_run demo_conf [demo_access 1000, demo_access 1000, demo_access 1000] kp_init)) 5) = 1"
proof -
  have "records_for demo_conf
     (snd (kp_run demo_conf [demo_access 1000, demo_access 1000, demo_access 1000] kp_init)) 5 \<noteq> []"
    by code_simp
  then show ?thesis
    using one_record_per_pfn
      [of demo_conf "[demo_access 1000, demo_access 1000, demo_access 1000]" 5]
    by (cases "records_for demo_conf
     (snd (kp_run demo_conf [demo_access 1000, demo_access 1000, demo_access 1000] kp_init)) 5")
      simp_all
qed

subsection \<open>The window test and the failed allocation\<close>

text \<open>
  Claim C1, evaluated.  Two eligible accesses to frame 5, one jiffy apart, with a window
  of 1250 jiffies: the second access finds \<^verbatim>\<open>last_update - now\<close> wrapped around to
  \<open>2\<^sup>6\<^sup>4 - 1\<close>, takes the new-window branch, and the record's frequency is 1.  Accesses
  in the same jiffy do count up, from the 2 that the first access leaves.
\<close>

theorem record_access_window_reset:
  "map frequency (records_for demo_conf
      (snd (kp_run demo_conf [demo_access 1000, demo_access 1001] kp_init)) 5) = [1]
   \<and> map last_update (records_for demo_conf
      (snd (kp_run demo_conf [demo_access 1000, demo_access 1001] kp_init)) 5) = [1001]
   \<and> map frequency (records_for demo_conf
      (snd (kp_run demo_conf [demo_access 1000] kp_init)) 5) = [2]"
  by code_simp

theorem record_access_window_reset_witness:
  "map frequency (records_for demo_conf
      (snd (kp_run demo_conf [demo_access 1000, demo_access 1001] kp_init)) 5) \<noteq> [2]"
  using record_access_window_reset by simp

text \<open>
  Claim C7, evaluated.  An eligible access to a frame that has no record, in a call where
  \<^verbatim>\<open>kzalloc\<close> fails: \<^verbatim>\<open>kpromoted_lookup\<close> returns \<^verbatim>\<open>ERR_PTR(-ENOMEM)\<close>, the NULL test
  does not catch it and the record is read through that pointer.  The call does not
  return; bucket 1 is still locked, and the only counters bumped are the two that every
  call bumps on entry.
\<close>

theorem record_access_alloc_failure:
  "kpromoted_record_access demo_conf (demo_env 1000 False 0) 5 0 KPROMOTED_HW_HINTS 1000 kp_init
     = Inl (Bad_pointer_deref,
            kp_init\<lparr>page_hotness_lock := {1},
                    vm_events := [KPROMOTED_RECORDED_ACCESSES, KPROMOTED_RECORD_HWHINTS]\<rparr>)"
  by (simp add: kpromoted_record_access_def kpromoted_lookup_def kpromoted_lookup_raw_def
      count_vm_event_def kp_init_def demo_conf_def demo_env_def Let_def)

theorem record_access_alloc_failure_witness:
  "isl (kpromoted_record_access demo_conf (demo_env 1000 False 0) 5 0 KPROMOTED_HW_HINTS 1000
          kp_init)
   \<and> page_hotness_lock (kp_state_of
         (kpromoted_record_access demo_conf (demo_env 1000 False 0) 5 0 KPROMOTED_HW_HINTS 1000
            kp_init)) = {1}"
  using record_access_alloc_failure by (simp add: kp_state_of_def)

text \<open>
  Claim C10, evaluated.  Every call that returns has returned 0
  (\<open>kpromoted_record_access_returns_0\<close>), but the call with the failed allocation does not
  return: the run stops in it with the fault.
\<close>

theorem record_access_no_return:
  "fst (kp_run demo_conf
         [Record_access (demo_env 2000 False 0) 6 NUMA_NO_NODE KPROMOTED_PGTABLE_SCAN 2000]
         kp_init) = Some Bad_pointer_deref"
  by code_simp

theorem record_access_no_return_witness:
  "fst (kp_run demo_conf
         [Record_access (demo_env 2000 False 0) 6 NUMA_NO_NODE KPROMOTED_PGTABLE_SCAN 2000]
         kp_init) \<noteq> None"
  using record_access_no_return by simp

section \<open>Proofs: the IBS sample ring\<close>

lemma diff_mod_50:
  fixes h t :: int
  assumes "0 \<le> h" "h < 50" "0 \<le> t" "t < 50"
  shows "(h - t) mod 50 = (if t \<le> h then h - t else h - t + 50)"
proof (cases "t \<le> h")
  case True
  then have "0 \<le> h - t" "h - t < 50" using assms by linarith+
  then have "(h - t) mod 50 = h - t" by (rule mod_pos_pos_trivial)
  then show ?thesis using True by (simp only: if_True)
next
  case False
  then have "0 \<le> h - t + 50" "h - t + 50 < 50" using assms by linarith+
  then have "(h - t + 50) mod 50 = h - t + 50" by (rule mod_pos_pos_trivial)
  moreover have "(h - t + 50) mod 50 = (h - t) mod 50" by (rule mod_add_self2)
  ultimately show ?thesis using False by (simp only: if_False)
qed

lemma add_mod_50:
  fixes t i :: int
  assumes "0 \<le> t" "t < 50" "0 \<le> i" "i < 50"
  shows "(t + i) mod 50 = (if t + i < 50 then t + i else t + i - 50)"
proof (cases "t + i < 50")
  case True
  moreover have "0 \<le> t + i" using assms by linarith
  ultimately have "(t + i) mod 50 = t + i" by (simp only: mod_pos_pos_trivial)
  then show ?thesis using True by (simp only: if_True)
next
  case False
  then have "0 \<le> t + i - 50" "t + i - 50 < 50" using assms by linarith+
  then have "(t + i - 50) mod 50 = t + i - 50" by (rule mod_pos_pos_trivial)
  moreover have "(t + i - 50 + 50) mod 50 = (t + i - 50) mod 50" by (rule mod_add_self2)
  moreover have "t + i - 50 + 50 = t + i" by linarith
  ultimately show ?thesis using False by (simp only: if_False)
qed

lemma ring_len_eq:
  "ring_ok r \<Longrightarrow> int (ring_len r) = (if tail r \<le> head r then head r - tail r else head r - tail r + 50)"
  by (simp add: ring_ok_def ring_len_def diff_mod_50)

lemma ring_len_le: "ring_ok r \<Longrightarrow> ring_len r \<le> 49"
  using ring_len_eq [of r] by (auto simp: ring_ok_def split: if_splits)

lemma ring_idx:
  assumes "ring_ok r" and "i \<le> ring_len r"
  shows "nat ((tail r + int i) mod 50) < 50"
    and "int (nat ((tail r + int i) mod 50)) =
           (if tail r + int i < 50 then tail r + int i else tail r + int i - 50)"
proof -
  have i: "int i < 50" using ring_len_le [OF assms(1)] assms(2) by simp
  have t: "0 \<le> tail r" "tail r < 50" using assms(1) by (simp_all add: ring_ok_def)
  show "int (nat ((tail r + int i) mod 50)) =
           (if tail r + int i < 50 then tail r + int i else tail r + int i - 50)"
    using add_mod_50 [OF t _ i] t by simp
  then show "nat ((tail r + int i) mod 50) < 50" using t i by (simp split: if_splits)
qed

lemma push_full:
  assumes "ring_ok r" and "ring_len r = 49"
  shows "ibs_push_sample p nid t r = Inr (0, r)"
proof -
  have "(if head r + 1 \<ge> 50 then 0 else head r + 1) = tail r"
    using ring_len_eq [OF assms(1)] assms unfolding ring_ok_def by (simp split: if_splits)
  then show ?thesis by (simp add: ibs_push_sample_def IBS_NR_SAMPLES_def Let_def)
qed

lemma push_room:
  assumes ok: "ring_ok r" and len: "ring_len r < 49"
  shows "\<exists>r'. ibs_push_sample p nid t r = Inr (1, r') \<and> ring_ok r'
          \<and> ring_len r' = Suc (ring_len r)
          \<and> map sample_key (ring_list r') = map sample_key (ring_list r) @ [(p, t)]"
proof -
  let ?next = "if head r + 1 \<ge> 50 then 0 else head r + 1"
  let ?slot = "(samples r ! nat (head r))\<lparr>sample_pfn := p, sample_time := t\<rparr>"
  let ?r' = "r\<lparr>samples := (samples r)[nat (head r) := ?slot], head := ?next\<rparr>"
  have b: "0 \<le> head r" "head r < 50" "0 \<le> tail r" "tail r < 50" "length (samples r) = 50"
    using ok by (simp_all add: ring_ok_def)
  have ne: "?next \<noteq> tail r"
    using ring_len_eq [OF ok] len b by (simp split: if_splits)
  have push: "ibs_push_sample p nid t r = Inr (1, ?r')"
    using ne b by (simp add: ibs_push_sample_def IBS_NR_SAMPLES_def Let_def)
  have ok': "ring_ok ?r'" using b by (simp add: ring_ok_def)
  have "int (ring_len ?r') = int (Suc (ring_len r))"
    using ring_len_eq [OF ok'] ring_len_eq [OF ok] len ne b by (simp split: if_splits)
  then have len': "ring_len ?r' = Suc (ring_len r)" by linarith
  have idx_last: "nat ((tail r + int (ring_len r)) mod 50) = nat (head r)"
  proof -
    have "int (nat ((tail r + int (ring_len r)) mod 50)) = head r"
      using ring_idx(2) [OF ok order_refl] ring_len_eq [OF ok] b by (simp split: if_splits)
    then show ?thesis by simp
  qed
  have idx_other: "nat (head r) \<noteq> nat ((tail r + int i) mod 50)" if "i < ring_len r" for i
  proof -
    have "int (nat ((tail r + int i) mod 50)) \<noteq> head r"
      using ring_idx(2) [OF ok less_imp_le [OF that]] ring_len_eq [OF ok] b that
      by (simp split: if_splits)
    then show ?thesis using b by linarith
  qed
  have "ring_list ?r' = ring_list r @ [?slot]"
    unfolding ring_list_def len' using b idx_last idx_other
    by simp
  then have "map sample_key (ring_list ?r') = map sample_key (ring_list r) @ [(p, t)]"
    by (simp add: sample_key_def)
  then show ?thesis using push ok' len' by blast
qed


lemma ring_len_0: "ring_ok r \<Longrightarrow> (ring_len r = 0) = (head r = tail r)"
  using ring_len_eq [of r] by (auto simp: ring_ok_def split: if_splits)

lemma pop_empty: "head r = tail r \<Longrightarrow> ibs_pop_sample s r = Inr (0, s, r)"
  by (simp add: ibs_pop_sample_def Let_def)

lemma pop_nonempty:
  assumes ok: "ring_ok r" and len: "0 < ring_len r"
  shows "\<exists>r'. ibs_pop_sample s r = Inr (1, hd (ring_list r), r') \<and> ring_ok r'
          \<and> ring_len r' = ring_len r - 1 \<and> ring_list r' = tl (ring_list r)"
proof -
  let ?next = "if tail r + 1 \<ge> 50 then 0 else tail r + 1"
  let ?r' = "r\<lparr>tail := ?next\<rparr>"
  have b: "0 \<le> head r" "head r < 50" "0 \<le> tail r" "tail r < 50" "length (samples r) = 50"
    using ok by (simp_all add: ring_ok_def)
  have ne: "head r \<noteq> tail r" using ring_len_0 [OF ok] len by simp
  have pop: "ibs_pop_sample s r = Inr (1, samples r ! nat (tail r), ?r')"
    using ne b by (simp add: ibs_pop_sample_def IBS_NR_SAMPLES_def Let_def)
  have ok': "ring_ok ?r'" using b by (simp add: ring_ok_def)
  have "int (ring_len ?r') = int (ring_len r - 1)"
    using ring_len_eq [OF ok'] ring_len_eq [OF ok] len ne b by (simp split: if_splits)
  then have len': "ring_len ?r' = ring_len r - 1" by linarith
  have next_mod: "?next = (tail r + 1) mod 50"
    using add_mod_50 [of "tail r" 1] b by (simp split: if_splits)
  have shift: "(?next + int i) mod 50 = (tail r + int (Suc i)) mod 50" for i
  proof -
    have "(?next + int i) mod 50 = ((tail r + 1) mod 50 + int i) mod 50"
      by (simp only: next_mod)
    also have "\<dots> = (tail r + 1 + int i) mod 50" by (rule mod_add_left_eq)
    also have "tail r + 1 + int i = tail r + int (Suc i)" by simp
    finally show ?thesis .
  qed
  have upt: "[0..<ring_len r] = 0 # map Suc [0..<ring_len r - 1]"
  proof -
    obtain k where k: "ring_len r = Suc k" using len by (cases "ring_len r") simp_all
    have "[0..<Suc k] = 0 # [Suc 0..<Suc k]" by (rule upt_conv_Cons) simp
    also have "[Suc 0..<Suc k] = map Suc [0..<k]" by (simp only: map_Suc_upt)
    finally show ?thesis by (simp only: k diff_Suc_1)
  qed
  have hd: "hd (ring_list r) = samples r ! nat (tail r)"
    unfolding ring_list_def upt using b by simp
  have "ring_list ?r' = tl (ring_list r)"
  proof -
    have "ring_list ?r' = map (\<lambda>i. samples r ! nat ((?next + int i) mod 50)) [0..<ring_len r - 1]"
      unfolding ring_list_def len' by simp
    also have "\<dots> = map (\<lambda>i. samples r ! nat ((tail r + int (Suc i)) mod 50)) [0..<ring_len r - 1]"
      by (simp only: shift)
    also have "\<dots> = tl (ring_list r)"
      unfolding ring_list_def upt by (simp add: comp_def)
    finally show ?thesis .
  qed
  then show ?thesis using pop hd ok' len' by auto
qed

lemma pop_n_all:
  assumes "ring_ok r" and "ring_len r \<le> n"
  shows "\<exists>r'. pop_n n s r = Inr (ring_list r, r') \<and> ring_ok r' \<and> head r' = tail r'"
  using assms
proof (induction n arbitrary: r s)
  case 0
  then have "ring_len r = 0" by simp
  then show ?case using 0 ring_len_0 [of r] by (simp add: ring_list_def)
next
  case (Suc n)
  show ?case
  proof (cases "ring_len r = 0")
    case True
    then have e: "head r = tail r" using ring_len_0 [OF Suc.prems(1)] by simp
    show ?thesis using True Suc.prems(1) e by (simp add: pop_empty [OF e] ring_list_def)
  next
    case False
    then have pos: "0 < ring_len r" by simp
    from pop_nonempty [OF Suc.prems(1) pos, of s] obtain r' where
      p: "ibs_pop_sample s r = Inr (1, hd (ring_list r), r')" and ok': "ring_ok r'"
      and len': "ring_len r' = ring_len r - 1" and l': "ring_list r' = tl (ring_list r)"
      by blast
    have "ring_len r' \<le> n" using len' Suc.prems(2) by simp
    from Suc.IH [OF ok' this, of "hd (ring_list r)"] obtain r'' where
      q: "pop_n n (hd (ring_list r)) r' = Inr (ring_list r', r'')" and "ring_ok r''"
      "head r'' = tail r''" by blast
    moreover have "ring_list r \<noteq> []" using pos by (simp add: ring_list_def)
    ultimately show ?thesis using p l' by simp
  qed
qed

lemma push_all_ring:
  assumes "ring_ok r"
  shows "\<exists>r'. push_all xs (r, ev) =
            Inr (r', ev @ replicate (min (49 - ring_len r) (length xs)) HWHINT_USEFUL_SAMPLES
                       @ replicate (length xs - (49 - ring_len r)) HWHINT_BUFFER_FULL)
          \<and> ring_ok r'
          \<and> ring_len r' = min 49 (ring_len r + length xs)
          \<and> map sample_key (ring_list r') =
              map sample_key (ring_list r)
              @ map (\<lambda>(p, nid, t). (p, t)) (take (49 - ring_len r) xs)"
  using assms
proof (induction xs arbitrary: r ev)
  case Nil
  then show ?case using ring_len_le [of r] by simp
next
  case (Cons x xs)
  obtain p nid t where x: "x = (p, nid, t)" by (cases x)
  show ?case
  proof (cases "ring_len r = 49")
    case True
    have st: "ibs_overflow_handler_store p nid t (r, ev) = Inr (r, ev @ [HWHINT_BUFFER_FULL])"
      by (simp add: ibs_overflow_handler_store_def push_full [OF Cons.prems True])
    from Cons.IH [OF Cons.prems, of "ev @ [HWHINT_BUFFER_FULL]"] True
    show ?thesis by (simp add: x st replicate_append_same)
  next
    case False
    then have lt: "ring_len r < 49" using ring_len_le [OF Cons.prems] by simp
    from push_room [OF Cons.prems lt, of p nid t] obtain r1 where
      p1: "ibs_push_sample p nid t r = Inr (1, r1)" and ok1: "ring_ok r1"
      and len1: "ring_len r1 = Suc (ring_len r)"
      and l1: "map sample_key (ring_list r1) = map sample_key (ring_list r) @ [(p, t)]"
      by blast
    have st: "ibs_overflow_handler_store p nid t (r, ev) = Inr (r1, ev @ [HWHINT_USEFUL_SAMPLES])"
      by (simp add: ibs_overflow_handler_store_def p1)
    have m: "min (49 - ring_len r) (length (x # xs)) = Suc (min (49 - Suc (ring_len r)) (length xs))"
      using lt by simp
    have d: "length (x # xs) - (49 - ring_len r) = length xs - (49 - Suc (ring_len r))"
      using lt by simp
    have tk: "take (49 - ring_len r) (x # xs) = x # take (49 - Suc (ring_len r)) xs"
      using lt by (simp add: take_Cons')
    from Cons.IH [OF ok1, of "ev @ [HWHINT_USEFUL_SAMPLES]"] obtain r' where
      "push_all xs (r1, ev @ [HWHINT_USEFUL_SAMPLES]) =
            Inr (r', (ev @ [HWHINT_USEFUL_SAMPLES])
                       @ replicate (min (49 - ring_len r1) (length xs)) HWHINT_USEFUL_SAMPLES
                       @ replicate (length xs - (49 - ring_len r1)) HWHINT_BUFFER_FULL)"
      "ring_ok r'" "ring_len r' = min 49 (ring_len r1 + length xs)"
      "map sample_key (ring_list r') =
              map sample_key (ring_list r1)
              @ map (\<lambda>(p, nid, t). (p, t)) (take (49 - ring_len r1) xs)"
      by blast
    then show ?thesis
      unfolding m d tk using lt by (simp add: x st len1 l1)
  qed
qed



lemma count_list_replicate: "count_list (replicate n x) y = (if x = y then n else 0)"
  by (induction n) auto

text \<open>
  Claim C4, as the code has it.  The ring keeps one of its 50 slots free, so it holds
  49 samples.  A burst of \<open>N\<close> samples pushed into an empty ring, with no pop in
  between: the first \<open>min N 49\<close> pushes are accepted, the other \<open>N - 49\<close> are refused
  and counted in \<^verbatim>\<open>HWHINT_BUFFER_FULL\<close>; popping then returns the accepted samples in
  the order they were pushed, each with the frame number and the time it was pushed
  with, and leaves the ring empty.
\<close>

theorem sample_ring_fifo:
  assumes "ring_ok r" and "head r = tail r"
  shows "\<exists>r1 out r2.
           push_all xs (r, ev) =
             Inr (r1, ev @ replicate (min 49 (length xs)) HWHINT_USEFUL_SAMPLES
                         @ replicate (length xs - 49) HWHINT_BUFFER_FULL)
         \<and> pop_n (length xs) s r1 = Inr (out, r2)
         \<and> map sample_key out = map (\<lambda>(p, nid, t). (p, t)) (take 49 xs)
         \<and> head r2 = tail r2"
proof -
  have len0: "ring_len r = 0" using ring_len_0 [OF assms(1)] assms(2) by simp
  then have l0: "ring_list r = []" by (simp add: ring_list_def)
  from push_all_ring [OF assms(1), of xs ev] obtain r1 where
    p: "push_all xs (r, ev) =
            Inr (r1, ev @ replicate (min 49 (length xs)) HWHINT_USEFUL_SAMPLES
                       @ replicate (length xs - 49) HWHINT_BUFFER_FULL)"
    and ok1: "ring_ok r1" and len1: "ring_len r1 = min 49 (length xs)"
    and l1: "map sample_key (ring_list r1) = map (\<lambda>(p, nid, t). (p, t)) (take 49 xs)"
    unfolding len0 l0 by auto
  have "ring_len r1 \<le> length xs" using len1 by simp
  from pop_n_all [OF ok1 this, of s] obtain r2 where
    "pop_n (length xs) s r1 = Inr (ring_list r1, r2)" "head r2 = tail r2" by blast
  then show ?thesis using p l1 by blast
qed

theorem sample_ring_fifo_witness:
  "\<exists>r1 out r2.
     push_all (numbered_samples 51) (ring_zero, []) =
       Inr (r1, replicate 49 HWHINT_USEFUL_SAMPLES @ replicate 2 HWHINT_BUFFER_FULL)
     \<and> pop_n 51 \<lparr>sample_pfn = 0, sample_time = 0, sample_nid = 0\<rparr> r1 = Inr (out, r2)
     \<and> map sample_key out = map (\<lambda>i. (of_nat i, of_nat (1000 + i))) [0..<49]
     \<and> head r2 = tail r2"
proof -
  have ok: "ring_ok ring_zero" by (simp add: ring_ok_def ring_zero_def)
  have e: "head ring_zero = tail ring_zero" by (simp add: ring_zero_def)
  have n: "length (numbered_samples 51) = 51" by (simp add: numbered_samples_def)
  have tk: "map (\<lambda>(p, nid, t). (p, t)) (take 49 (numbered_samples 51))
              = map (\<lambda>i. (of_nat i, of_nat (1000 + i))) [0..<49]"
    by (simp add: numbered_samples_def take_map comp_def)
  show ?thesis
    using sample_ring_fifo [OF ok e, of "numbered_samples 51" "[]"
        "\<lparr>sample_pfn = 0, sample_time = 0, sample_nid = 0\<rparr>"]
    unfolding n tk by simp
qed

text \<open>
  A burst of 51 samples into the zeroed ring loses two of them, not one; and the sample
  pushed with node 3 is popped with the node id the zeroed slot had.
\<close>

theorem sample_ring_counterexample:
  "dropped_count overfilled_ring = 2
   \<and> numbered_samples 1 = [(0, 3, 1000)]
   \<and> first_popped (push_all (numbered_samples 1) (ring_zero, []))
       = Some \<lparr>sample_pfn = 0, sample_time = 1000, sample_nid = 0\<rparr>"
proof -
  have ok: "ring_ok ring_zero" by (simp add: ring_ok_def ring_zero_def)
  have l: "ring_len ring_zero = 0" by (simp add: ring_len_def ring_zero_def)
  have n: "length (numbered_samples 51) = 51" by (simp add: numbered_samples_def)
  from push_all_ring [OF ok, of "numbered_samples 51" "[]"] obtain r' where
    eq: "overfilled_ring =
       Inr (r', replicate 49 HWHINT_USEFUL_SAMPLES @ replicate 2 HWHINT_BUFFER_FULL)"
    unfolding overfilled_ring_def l n by auto
  have "dropped_count overfilled_ring = 2"
    unfolding eq dropped_count_def by (simp add: count_list_replicate)
  moreover have "numbered_samples 1 = [(0, 3, 1000)]"
    by (simp add: numbered_samples_def)
  moreover have "first_popped (push_all (numbered_samples 1) (ring_zero, []))
       = Some \<lparr>sample_pfn = 0, sample_time = 1000, sample_nid = 0\<rparr>"
    by code_simp
  ultimately show ?thesis by blast
qed

end
